theory Spec2Isabelle
  imports Main "HOL-Library.Multiset"
begin

section \<open>The Wordle guess generator (\<^verbatim>\<open>wordle.py\<close>)\<close>

text \<open>
  A Python \<^verbatim>\<open>str\<close> is modelled as a \<^typ>\<open>string\<close>, one \<^typ>\<open>char\<close> per character of
  the Python string; nothing below depends on which characters exist beyond the
  placeholder \<^verbatim>\<open>'?'\<close> being one of them. Python's unbounded integers are \<^typ>\<open>int\<close>.
\<close>

subsection \<open>The library functions the script calls\<close>

datatype error = ValueError

text \<open>
  \<^verbatim>\<open>itertools.permutations(p, r)\<close>: the \<open>r\<close>-length arrangements of the elements of
  \<open>p\<close>, elements told apart by position and not by value, emitted in the lexicographic
  order of the positions chosen. \<^verbatim>\<open>itertools.permutations(p)\<close> is the case
  \<open>r = len(p)\<close>.
\<close>

fun permutations_r :: "'a list \<Rightarrow> nat \<Rightarrow> 'a list list" where
  "permutations_r xs 0 = [[]]"
| "permutations_r xs (Suc r) =
     concat (map (\<lambda>i. map ((#) (xs ! i)) (permutations_r (take i xs @ drop (Suc i) xs) r))
                 [0..<length xs])"

definition permutations :: "'a list \<Rightarrow> 'a list list" where
  "permutations xs = permutations_r xs (length xs)"

text \<open>
  \<^verbatim>\<open>itertools.combinations(p, r)\<close>: the \<open>r\<close>-length subsequences of \<open>p\<close>, again by
  position and in the lexicographic order of the positions; a negative \<open>r\<close> raises
  \<^verbatim>\<open>ValueError\<close>.
\<close>

fun subsequences_r :: "'a list \<Rightarrow> nat \<Rightarrow> 'a list list" where
  "subsequences_r xs 0 = [[]]"
| "subsequences_r [] (Suc r) = []"
| "subsequences_r (x # xs) (Suc r) =
     map ((#) x) (subsequences_r xs r) @ subsequences_r xs (Suc r)"

definition combinations :: "'a list \<Rightarrow> int \<Rightarrow> error + 'a list list" where
  "combinations p r = (if r < 0 then Inl ValueError else Inr (subsequences_r p (nat r)))"

text \<open>
  \<^verbatim>\<open>guess.replace('?', letter, 1)\<close>: the leftmost \<^verbatim>\<open>'?'\<close> of \<open>guess\<close> becomes
  \<open>letter\<close>; a string without \<^verbatim>\<open>'?'\<close> is returned as it is.
\<close>

fun replace_first :: "string \<Rightarrow> char \<Rightarrow> string" where
  "replace_first [] letter = []"
| "replace_first (c # cs) letter =
     (if c = CHR ''?'' then letter # cs else c # replace_first cs letter)"

subsection \<open>The script's functions\<close>

text \<open>\<^verbatim>\<open>_permgen\<close>: joining a tuple of characters gives the list of characters itself.\<close>

definition permgen :: "string \<Rightarrow> string list" where
  "permgen p = permutations p"

definition combogen :: "string \<Rightarrow> int \<Rightarrow> error + string list" where
  "combogen p r = combinations p r"

text \<open>
  The first loop of \<^verbatim>\<open>guess_generator\<close>, over the combinations, with its state
  \<^verbatim>\<open>combos_seen\<close> and \<^verbatim>\<open>perm_generators\<close>.
\<close>

fun combo_loop :: "string \<Rightarrow> string list \<Rightarrow> string set \<Rightarrow> string list list \<Rightarrow> string list list" where
  "combo_loop required_letters [] combos_seen perm_generators = perm_generators"
| "combo_loop required_letters (combo # rest) combos_seen perm_generators =
     (if combo \<in> combos_seen then combo_loop required_letters rest combos_seen perm_generators
      else combo_loop required_letters rest (insert combo combos_seen)
             (perm_generators @ [permgen (combo @ required_letters)]))"

text \<open>
  Both loops of \<^verbatim>\<open>guess_generator\<close> begin with
  \<^verbatim>\<open>if x in seen: continue\<close> followed by \<^verbatim>\<open>seen.add(x)\<close>. \<open>past_check xs seen\<close> lists
  the items of \<open>xs\<close> for which such a loop, started with the set \<open>seen\<close>, gets past
  the check, in the order in which it does. For the first loop these are the
  combinations whose permutation generator is appended.
\<close>

fun past_check :: "'a list \<Rightarrow> 'a set \<Rightarrow> 'a list" where
  "past_check [] seen = []"
| "past_check (x # xs) seen =
     (if x \<in> seen then past_check xs seen else x # past_check xs (insert x seen))"

text \<open>
  The construction of \<^verbatim>\<open>perms\<close>: the permutations of \<open>required_letters\<close> alone, or the
  chain of the generators the first loop collected. The counts are Python integers, so
  their difference can be negative, and then \<^verbatim>\<open>itertools.combinations\<close> raises.
\<close>

definition build_perms :: "string \<Rightarrow> string \<Rightarrow> string \<Rightarrow> error + string list" where
  "build_perms previous_guess available_letters required_letters =
     (let n_unknown = int (count_list previous_guess CHR ''?'');
          n_required = int (length required_letters)
      in if n_unknown = n_required then Inr (permgen required_letters)
         else (case combogen available_letters (n_unknown - n_required) of
                 Inl e \<Rightarrow> Inl e
               | Inr combos \<Rightarrow> Inr (concat (combo_loop required_letters combos {} []))))"

text \<open>The inner loop \<^verbatim>\<open>for letter in perm: guess = guess.replace('?', letter, 1)\<close>.\<close>

definition substitute :: "string \<Rightarrow> string \<Rightarrow> string" where
  "substitute previous_guess perm = foldl replace_first previous_guess perm"

text \<open>
  A generator object of \<^verbatim>\<open>guess_generator\<close> is a suspended run of its body:
  \<^item> \<open>Created\<close>: the call has bound the four arguments and no statement has run;
  \<^item> \<open>Suspended\<close>: the run stands at the \<^verbatim>\<open>yield\<close> inside the second loop; what is
    live there is \<open>previous_guess\<close>, \<open>dictionary\<close>, the rest of \<open>perms\<close> and
    \<open>perms_seen\<close>;
  \<^item> \<open>Finished\<close>: the body has returned or raised.

  The dictionary is \<open>None\<close> or a set of words. \<open>perms\<close> is a lazy chain of permutation
  generators in the script; they are pure and cannot raise, so the model holds the list
  of the strings they produce.
\<close>

datatype generator =
    Created string string string "string set option"
  | Suspended string "string set option" "string list" "string set"
  | Finished

text \<open>Calling \<^verbatim>\<open>guess_generator\<close> only creates the generator object.\<close>

definition guess_generator :: "string \<Rightarrow> string \<Rightarrow> string \<Rightarrow> string set option \<Rightarrow> generator" where
  "guess_generator previous_guess available_letters required_letters dictionary =
     Created previous_guess available_letters required_letters dictionary"

text \<open>
  What one call of \<^verbatim>\<open>next\<close> gives: a value, the end of the iteration, or the
  exception the body raised.
\<close>

datatype outcome = Yield string | StopIteration | Raise error

text \<open>
  The second loop, over \<open>perms\<close>, with its state \<^verbatim>\<open>perms_seen\<close>, run until it yields
  or runs out of permutations.
\<close>

fun loop_to_yield :: "string \<Rightarrow> string set option \<Rightarrow> string list \<Rightarrow> string set \<Rightarrow> outcome \<times> generator" where
  "loop_to_yield previous_guess dictionary [] perms_seen = (StopIteration, Finished)"
| "loop_to_yield previous_guess dictionary (perm # rest) perms_seen =
     (if perm \<in> perms_seen then loop_to_yield previous_guess dictionary rest perms_seen
      else (let guess = substitute previous_guess perm
            in if dictionary = None \<or> guess \<in> the dictionary
               then (Yield guess, Suspended previous_guess dictionary rest (insert perm perms_seen))
               else loop_to_yield previous_guess dictionary rest (insert perm perms_seen)))"

text \<open>
  \<^verbatim>\<open>next(g)\<close>. The first call runs the body from its first statement: it builds
  \<open>perms\<close>, where \<^verbatim>\<open>itertools.combinations\<close> may raise, and enters the second loop.
  A later call resumes the loop; a finished generator only reports the end.
\<close>

fun next_item :: "generator \<Rightarrow> outcome \<times> generator" where
  "next_item (Created previous_guess available_letters required_letters dictionary) =
     (case build_perms previous_guess available_letters required_letters of
        Inl e \<Rightarrow> (Raise e, Finished)
      | Inr perms \<Rightarrow> loop_to_yield previous_guess dictionary perms {})"
| "next_item (Suspended previous_guess dictionary rest perms_seen) =
     loop_to_yield previous_guess dictionary rest perms_seen"
| "next_item Finished = (StopIteration, Finished)"

text \<open>The outcomes of \<open>n\<close> successive calls of \<^verbatim>\<open>next\<close>.\<close>

fun outcomes :: "nat \<Rightarrow> generator \<Rightarrow> outcome list" where
  "outcomes 0 g = []"
| "outcomes (Suc n) g = fst (next_item g) # outcomes n (snd (next_item g))"

text \<open>
  Consuming a generator to its end, as a \<^verbatim>\<open>for\<close> loop over it does: the values it
  yields, in order, and the exception that ended it, if one did. Each call of
  \<^verbatim>\<open>next\<close> that yields leaves fewer permutations to go through, so this ends.
\<close>

fun left_to_run :: "generator \<Rightarrow> nat" where
  "left_to_run (Created previous_guess available_letters required_letters dictionary) =
     (case build_perms previous_guess available_letters required_letters of
        Inl e \<Rightarrow> 0 | Inr perms \<Rightarrow> Suc (length perms))"
| "left_to_run (Suspended previous_guess dictionary rest perms_seen) = length rest"
| "left_to_run Finished = 0"

function consume :: "generator \<Rightarrow> string list \<times> error option" where
  "consume g =
     (case next_item g of
        (Yield x, g') \<Rightarrow> (x # fst (consume g'), snd (consume g'))
      | (StopIteration, g') \<Rightarrow> ([], None)
      | (Raise e, g') \<Rightarrow> ([], Some e))"
  by pat_completeness auto
termination
proof -
  have loop: "left_to_run g' < length perms"
    if "loop_to_yield p d perms seen = (Yield x, g')" for p d perms seen x g'
    using that
    by (induction perms arbitrary: seen) (auto simp: Let_def less_Suc_eq split: if_splits)
  have step: "left_to_run g' < left_to_run g" if "next_item g = (Yield x, g')" for g x g'
  proof (cases g)
    case (Created p a r d)
    with that show ?thesis by (auto split: sum.splits dest: loop)
  next
    case (Suspended p d rest seen)
    with that show ?thesis by (auto dest: loop)
  next
    case Finished
    with that show ?thesis by simp
  qed
  show ?thesis
    by (relation "measure left_to_run") (auto dest: step[OF sym])
qed

declare consume.simps [simp del]

definition yielded :: "generator \<Rightarrow> string list" where
  "yielded g = fst (consume g)"

definition ending :: "generator \<Rightarrow> error option" where
  "ending g = snd (consume g)"

subsection \<open>Notions the properties are stated with\<close>

text \<open>The number \<open>u\<close> of unknown positions of a pattern.\<close>

definition unknowns :: "string \<Rightarrow> nat" where
  "unknowns pattern = count_list pattern CHR ''?''"

text \<open>The alphabets of the interface: letters \<open>a\<close> to \<open>z\<close>, and for a pattern also \<^verbatim>\<open>'?'\<close>.\<close>

definition is_letter :: "char \<Rightarrow> bool" where
  "is_letter c = (c \<in> set ''abcdefghijklmnopqrstuvwxyz'')"

definition is_pattern_char :: "char \<Rightarrow> bool" where
  "is_pattern_char c = (is_letter c \<or> c = CHR ''?'')"

text \<open>
  Substitution as the specification words it: a walk over the pattern from left to right
  in which the first \<^verbatim>\<open>'?'\<close> receives the first letter of the ordering, the second
  \<^verbatim>\<open>'?'\<close> the second letter, and so on; every other position is kept, and so is a
  \<^verbatim>\<open>'?'\<close> for which no letter is left.
\<close>

fun fill_slots :: "string \<Rightarrow> string \<Rightarrow> string" where
  "fill_slots [] letters = []"
| "fill_slots (c # cs) letters =
     (if c = CHR ''?''
      then (case letters of [] \<Rightarrow> c # cs | l # ls \<Rightarrow> l # fill_slots cs ls)
      else c # fill_slots cs letters)"

text \<open>The letters a guess has at the \<^verbatim>\<open>'?'\<close> positions of the pattern, from left to right.\<close>

fun slot_letters :: "string \<Rightarrow> string \<Rightarrow> string" where
  "slot_letters (c # cs) (g # gs) =
     (if c = CHR ''?'' then g # slot_letters cs gs else slot_letters cs gs)"
| "slot_letters cs gs = []"

text \<open>
  What the specification compares the output with when \<open>u = r\<close>: the distinct
  orderings of the multiset of \<open>present\<close>'s letters, and the set of the strings obtained
  by substituting each of them into the pattern.
\<close>

definition distinct_orderings :: "string \<Rightarrow> string set" where
  "distinct_orderings present = {letters. mset letters = mset present}"

definition arrangements :: "string \<Rightarrow> string \<Rightarrow> string set" where
  "arrangements pattern present = fill_slots pattern ` distinct_orderings present"

text \<open>A string in which the occurrences of each character are adjacent.\<close>

fun grouped :: "'a list \<Rightarrow> bool" where
  "grouped [] = True"
| "grouped [x] = True"
| "grouped (x # y # ys) = ((x = y \<or> x \<notin> set (y # ys)) \<and> grouped (y # ys))"

section \<open>The two seen-set loops\<close>

lemma set_past_check: "set (past_check xs seen) = set xs - seen"
  by (induction xs arbitrary: seen) auto

lemma distinct_past_check: "distinct (past_check xs seen)"
  by (induction xs arbitrary: seen) (auto simp: set_past_check)

lemma combo_loop_past_check:
  "combo_loop req combos seen gens =
     gens @ map (\<lambda>combo. permgen (combo @ req)) (past_check combos seen)"
  by (induction combos arbitrary: seen gens) auto

section \<open>What the library functions enumerate\<close>

lemma mset_remove_nth:
  "i < length xs \<Longrightarrow> mset (take i xs @ drop (Suc i) xs) = mset xs - {#xs ! i#}"
proof -
  assume "i < length xs"
  then have "xs = take i xs @ xs ! i # drop (Suc i) xs"
    by (simp add: id_take_nth_drop)
  then have "mset xs = mset (take i xs @ drop (Suc i) xs) + {#xs ! i#}"
    by (metis mset.simps(2) mset_append union_mset_add_mset_right add.right_neutral union_commute add_mset_add_single)
  then show ?thesis by simp
qed

lemma set_permutations_r:
  "set (permutations_r xs r) = {ys. length ys = r \<and> mset ys \<subseteq># mset xs}"
proof (induction r arbitrary: xs)
  case 0
  then show ?case by auto
next
  case (Suc r)
  show ?case
  proof (intro set_eqI iffI)
    fix ys assume "ys \<in> set (permutations_r xs (Suc r))"
    then obtain i zs where i: "i < length xs" and ys: "ys = xs ! i # zs"
      and zs: "zs \<in> set (permutations_r (take i xs @ drop (Suc i) xs) r)"
      by auto
    from zs have "length zs = r \<and> mset zs \<subseteq># mset (take i xs @ drop (Suc i) xs)"
      unfolding Suc.IH by blast
    then have "length zs = r" and "mset zs \<subseteq># mset xs - {#xs ! i#}"
      unfolding mset_remove_nth[OF i] by blast+
    moreover have "xs ! i \<in># mset xs" using i by simp
    ultimately show "ys \<in> {ys. length ys = Suc r \<and> mset ys \<subseteq># mset xs}"
      using ys by (simp add: insert_subset_eq_iff)
  next
    fix ys assume "ys \<in> {ys. length ys = Suc r \<and> mset ys \<subseteq># mset xs}"
    then obtain y zs where ys: "ys = y # zs" and len: "length zs = r"
      and sub: "add_mset y (mset zs) \<subseteq># mset xs"
      by (cases ys) auto
    from sub have y: "y \<in> set xs" and zs: "mset zs \<subseteq># mset xs - {#y#}"
      by (auto simp: insert_subset_eq_iff)
    from y obtain i where i: "i < length xs" "xs ! i = y"
      by (auto simp: in_set_conv_nth)
    from zs i have "mset zs \<subseteq># mset (take i xs @ drop (Suc i) xs)"
      unfolding mset_remove_nth[OF i(1)] by blast
    with len have "zs \<in> set (permutations_r (take i xs @ drop (Suc i) xs) r)"
      unfolding Suc.IH by blast
    with i ys show "ys \<in> set (permutations_r xs (Suc r))"
      by auto
  qed
qed

lemma set_permutations: "set (permutations xs) = {ys. mset ys = mset xs}"
proof -
  have "length ys = length xs \<and> mset ys \<subseteq># mset xs \<longleftrightarrow> mset ys = mset xs" for ys
  proof
    assume a: "length ys = length xs \<and> mset ys \<subseteq># mset xs"
    then obtain C where C: "mset xs = mset ys + C"
      by (auto simp: mset_subset_eq_exists_conv)
    then have "size (mset xs) = size (mset ys) + size C" by simp
    with a have "C = {#}" by simp
    with C show "mset ys = mset xs" by simp
  next
    assume "mset ys = mset xs"
    then show "length ys = length xs \<and> mset ys \<subseteq># mset xs"
      by (metis mset_eq_length subset_mset.order_refl)
  qed
  then show ?thesis
    by (simp add: permutations_def set_permutations_r)
qed

lemma set_permgen: "set (permgen xs) = {ys. mset ys = mset xs}"
  by (simp add: permgen_def set_permutations)

lemma subsequences_r_props:
  "ys \<in> set (subsequences_r xs r) \<Longrightarrow> length ys = r \<and> mset ys \<subseteq># mset xs"
proof (induction xs r arbitrary: ys rule: subsequences_r.induct)
  case (1 xs)
  then show ?case by simp
next
  case (2 r)
  then show ?case by simp
next
  case (3 x xs r)
  from "3.prems" consider zs where "ys = x # zs" "zs \<in> set (subsequences_r xs r)"
    | "ys \<in> set (subsequences_r xs (Suc r))"
    by auto
  then show ?case
  proof cases
    case 1
    with "3.IH"(1) show ?thesis by simp
  next
    case 2
    with "3.IH"(2) have "length ys = Suc r" "mset ys \<subseteq># mset xs" by auto
    then show ?thesis
      by (simp add: subset_mset.le_add_same_cancel2 mset_subset_eq_add_mset_cancel subset_mset.order_trans[of _ "mset xs"])
  qed
qed

lemma subsequences_r_set: "ys \<in> set (subsequences_r xs r) \<Longrightarrow> set ys \<subseteq> set xs"
  by (metis subsequences_r_props set_mset_mono set_mset_mset)

lemma subsequences_r_Cons_mono:
  "zs \<in> set (subsequences_r xs k) \<Longrightarrow> zs \<in> set (subsequences_r (x # xs) k)"
  by (cases k) auto

lemma subsequences_r_without_head:
  "zs \<in> set (subsequences_r (x # xs) k) \<Longrightarrow> x \<notin> set zs \<Longrightarrow> zs \<in> set (subsequences_r xs k)"
  by (cases k) auto

subsection \<open>Subsequences of a grouped string\<close>

lemma grouped_tl: "grouped (x # xs) \<Longrightarrow> grouped xs"
  by (cases xs) auto

lemma grouped_subsequence_head:
  "grouped (x # xs) \<Longrightarrow> zs \<in> set (subsequences_r (x # xs) k) \<Longrightarrow> x \<in> set zs \<Longrightarrow>
   \<exists>zs' k'. k = Suc k' \<and> zs = x # zs' \<and> zs' \<in> set (subsequences_r xs k')"
proof (induction xs arbitrary: k zs)
  case Nil
  then show ?case by (cases k) auto
next
  case (Cons y ys)
  from Cons.prems(2,3) obtain k' where k: "k = Suc k'"
    by (cases k) auto
  from Cons.prems(2) k consider zs' where "zs = x # zs'" "zs' \<in> set (subsequences_r (y # ys) k')"
    | "zs \<in> set (subsequences_r (y # ys) k)"
    by auto
  then show ?case
  proof cases
    case 1
    with k show ?thesis by blast
  next
    case 2
    with Cons.prems(3) have "x \<in> set (y # ys)"
      using subsequences_r_set by blast
    with Cons.prems(1) have y: "y = x" by auto
    with Cons.prems(1) have g: "grouped (x # ys)" by (auto dest: grouped_tl)
    from Cons.IH[OF g _ Cons.prems(3)] 2 y obtain zs' k''
      where "k = Suc k''" "zs = x # zs'" "zs' \<in> set (subsequences_r ys k'')"
      by blast
    then show ?thesis
      using y by (auto intro: subsequences_r_Cons_mono)
  qed
qed

lemma grouped_subsequences_mset_inj:
  "grouped xs \<Longrightarrow> ys \<in> set (subsequences_r xs k) \<Longrightarrow> zs \<in> set (subsequences_r xs k) \<Longrightarrow>
   mset ys = mset zs \<Longrightarrow> ys = zs"
proof (induction xs arbitrary: k ys zs)
  case Nil
  then show ?case by (cases k) auto
next
  case (Cons x xs)
  have g: "grouped xs" using Cons.prems(1) by (rule grouped_tl)
  show ?case
  proof (cases "x \<in> set ys")
    case True
    then have "x \<in> set zs" using Cons.prems(4) by (metis mset_eq_setD)
    from grouped_subsequence_head[OF Cons.prems(1,2) True]
    obtain ys' k' where ys: "k = Suc k'" "ys = x # ys'" "ys' \<in> set (subsequences_r xs k')"
      by blast
    from grouped_subsequence_head[OF Cons.prems(1,3) \<open>x \<in> set zs\<close>] ys(1)
    obtain zs' where zs: "zs = x # zs'" "zs' \<in> set (subsequences_r xs k')"
      by blast
    from Cons.prems(4) ys zs have "mset ys' = mset zs'" by simp
    with Cons.IH[OF g ys(3) zs(2)] ys zs show ?thesis by simp
  next
    case False
    then have "x \<notin> set zs" using Cons.prems(4) by (metis mset_eq_setD)
    with False Cons.prems(2,3) have "ys \<in> set (subsequences_r xs k)" "zs \<in> set (subsequences_r xs k)"
      by (auto intro: subsequences_r_without_head)
    with Cons.IH[OF g _ _ Cons.prems(4)] show ?thesis by blast
  qed
qed

section \<open>Substitution\<close>

lemma length_replace_first: "length (replace_first g c) = length g"
  by (induction g) auto

lemma replace_first_keeps:
  "i < length g \<Longrightarrow> g ! i \<noteq> CHR ''?'' \<Longrightarrow> replace_first g c ! i = g ! i"
proof (induction g arbitrary: i)
  case Nil
  then show ?case by simp
next
  case (Cons x xs)
  then show ?case by (cases i) auto
qed

lemma length_substitute: "length (substitute p perm) = length p"
  unfolding substitute_def
  by (induction perm arbitrary: p) (auto simp: length_replace_first)

lemma substitute_keeps:
  "i < length p \<Longrightarrow> p ! i \<noteq> CHR ''?'' \<Longrightarrow> substitute p perm ! i = p ! i"
  unfolding substitute_def
proof (induction perm arbitrary: p)
  case Nil
  then show ?case by simp
next
  case (Cons c cs)
  have "foldl replace_first (replace_first p c) cs ! i = replace_first p c ! i"
    using Cons.prems by (intro Cons.IH) (simp_all add: length_replace_first replace_first_keeps)
  then show ?case using Cons.prems by (simp add: replace_first_keeps)
qed

lemma fill_slots_Nil: "fill_slots p [] = p"
  by (induction p) auto

lemma fill_slots_replace_first:
  "c \<noteq> CHR ''?'' \<Longrightarrow> fill_slots (replace_first p c) ls = fill_slots p (c # ls)"
  by (induction p) auto

lemma substitute_fill_slots:
  "CHR ''?'' \<notin> set perm \<Longrightarrow> substitute p perm = fill_slots p perm"
  unfolding substitute_def
  by (induction perm arbitrary: p) (auto simp: fill_slots_Nil fill_slots_replace_first)

lemma slot_letters_fill_slots:
  "length ls = count_list p CHR ''?'' \<Longrightarrow> slot_letters p (fill_slots p ls) = ls"
proof (induction p arbitrary: ls)
  case Nil
  then show ?case by simp
next
  case (Cons c cs)
  then show ?case by (cases ls) (auto split: if_splits)
qed

lemma fill_slots_inj:
  "length ls = count_list p CHR ''?'' \<Longrightarrow> length ms = count_list p CHR ''?'' \<Longrightarrow>
   fill_slots p ls = fill_slots p ms \<Longrightarrow> ls = ms"
  by (metis slot_letters_fill_slots)

lemma letter_not_placeholder: "is_letter c \<Longrightarrow> c \<noteq> CHR ''?''"
  by (auto simp: is_letter_def)

section \<open>The orderings that reach the second loop\<close>

lemma build_perms_eq:
  "int (count_list p CHR ''?'') = int (length req) \<Longrightarrow> build_perms p a req = Inr (permgen req)"
  by (simp add: build_perms_def)

lemma build_perms_more:
  "length req < count_list p CHR ''?'' \<Longrightarrow>
   build_perms p a req =
     Inr (concat (map (\<lambda>combo. permgen (combo @ req))
            (past_check (subsequences_r a (count_list p CHR ''?'' - length req)) {})))"
  by (simp add: build_perms_def combogen_def combinations_def combo_loop_past_check Let_def nat_diff_distrib')

lemma build_perms_fewer:
  "count_list p CHR ''?'' < length req \<Longrightarrow> build_perms p a req = Inl ValueError"
  by (simp add: build_perms_def combogen_def combinations_def Let_def)

lemma build_perms_member:
  assumes "build_perms p a req = Inr perms" and "perm \<in> set perms"
  shows "length req \<le> count_list p CHR ''?'' \<and> length perm = count_list p CHR ''?'' \<and>
         (\<exists>S. S \<subseteq># mset a \<and> size S = count_list p CHR ''?'' - length req \<and>
              mset perm = mset req + S)"
proof -
  consider "count_list p CHR ''?'' = length req" | "length req < count_list p CHR ''?''"
    | "count_list p CHR ''?'' < length req"
    by linarith
  then show ?thesis
  proof cases
    case 1
    with assms have "mset perm = mset req"
      by (auto simp: build_perms_eq set_permgen)
    then show ?thesis
      using 1 by (auto dest: mset_eq_length)
  next
    case 2
    with assms obtain combo where c: "combo \<in> set (subsequences_r a (count_list p CHR ''?'' - length req))"
      and m: "mset perm = mset (combo @ req)"
      by (auto simp: build_perms_more set_permgen set_past_check)
    from c have "length combo = count_list p CHR ''?'' - length req" "mset combo \<subseteq># mset a"
      by (auto dest: subsequences_r_props)
    moreover from m have "length perm = length combo + length req"
      by (metis length_append mset_eq_length)
    ultimately show ?thesis
      using 2 m by (intro conjI exI[of _ "mset combo"]) auto
  next
    case 3
    with assms show ?thesis by (simp add: build_perms_fewer)
  qed
qed

lemma build_perms_letters:
  assumes "build_perms p a req = Inr perms" and "perm \<in> set perms"
  shows "set perm \<subseteq> set a \<union> set req"
proof -
  from build_perms_member[OF assms] obtain S where "S \<subseteq># mset a" "mset perm = mset req + S"
    by blast
  then have "set_mset (mset perm) \<subseteq> set_mset (mset req) \<union> set_mset (mset a)"
    by (auto dest: mset_subset_eqD)
  then show ?thesis by auto
qed

section \<open>Consuming the generator\<close>

text \<open>
  A consumed generator has yielded the substitutions of the orderings that got past the
  seen-set check, filtered by the dictionary, and has ended with the exception of
  \<open>build_perms\<close>, if there was one.
\<close>

lemma consume_same_next:
  assumes "next_item g = next_item h"
  shows "consume g = consume h"
  by (subst consume.simps[of g], subst consume.simps[of h]) (simp only: assms simp_thms)

lemma consume_suspended:
  "consume (Suspended p d rest seen) =
     (filter (\<lambda>g. d = None \<or> g \<in> the d) (map (substitute p) (past_check rest seen)), None)"
proof (induction rest arbitrary: seen)
  case Nil
  show ?case by (subst consume.simps) simp
next
  case (Cons perm rest)
  let ?guess = "substitute p perm"
  consider "perm \<in> seen" | "perm \<notin> seen" "d = None \<or> ?guess \<in> the d"
    | "perm \<notin> seen" "\<not> (d = None \<or> ?guess \<in> the d)"
    by blast
  then show ?case
  proof cases
    case 1
    then have "consume (Suspended p d (perm # rest) seen) = consume (Suspended p d rest seen)"
      by (intro consume_same_next) simp
    with 1 show ?thesis by (simp add: Cons.IH)
  next
    case 2
    then have "next_item (Suspended p d (perm # rest) seen)
                 = (Yield ?guess, Suspended p d rest (insert perm seen))"
      by (simp add: Let_def)
    then have "consume (Suspended p d (perm # rest) seen)
                 = (?guess # fst (consume (Suspended p d rest (insert perm seen))),
                    snd (consume (Suspended p d rest (insert perm seen))))"
      by (subst consume.simps) simp
    with 2 show ?thesis by (simp add: Cons.IH)
  next
    case 3
    then have "next_item (Suspended p d (perm # rest) seen)
                 = next_item (Suspended p d rest (insert perm seen))"
      by (auto simp: Let_def)
    then have "consume (Suspended p d (perm # rest) seen)
                 = consume (Suspended p d rest (insert perm seen))"
      by (rule consume_same_next)
    with 3 show ?thesis by (auto simp: Cons.IH)
  qed
qed

lemma consume_created:
  "consume (Created p a req d) =
     (case build_perms p a req of
        Inl e \<Rightarrow> ([], Some e)
      | Inr perms \<Rightarrow> (filter (\<lambda>g. d = None \<or> g \<in> the d)
                        (map (substitute p) (past_check perms {})), None))"
proof (cases "build_perms p a req")
  case (Inl e)
  then show ?thesis by (subst consume.simps) simp
next
  case (Inr perms)
  then have "consume (Created p a req d) = consume (Suspended p d perms {})"
    by (intro consume_same_next) simp
  with Inr show ?thesis by (simp add: consume_suspended)
qed

lemma yielded_created:
  "yielded (Created p a req d) =
     (case build_perms p a req of Inl e \<Rightarrow> []
      | Inr perms \<Rightarrow> filter (\<lambda>g. d = None \<or> g \<in> the d) (map (substitute p) (past_check perms {})))"
  by (simp add: yielded_def consume_created split: sum.splits)

lemma ending_created:
  "ending (Created p a req d) =
     (case build_perms p a req of Inl e \<Rightarrow> Some e | Inr perms \<Rightarrow> None)"
  by (simp add: ending_def consume_created split: sum.splits)

lemma yielded_cases:
  "yielded (guess_generator p a req d) =
     (case build_perms p a req of Inl e \<Rightarrow> []
      | Inr perms \<Rightarrow> filter (\<lambda>g. d = None \<or> g \<in> the d) (map (substitute p) (past_check perms {})))"
  unfolding guess_generator_def by (rule yielded_created)

lemma ending_cases:
  "ending (guess_generator p a req d) =
     (case build_perms p a req of Inl e \<Rightarrow> Some e | Inr perms \<Rightarrow> None)"
  unfolding guess_generator_def by (rule ending_created)

lemma yielded_from_ordering:
  assumes "g \<in> set (yielded (guess_generator p a req d))"
  shows "\<exists>perms perm. build_perms p a req = Inr perms \<and> perm \<in> set perms \<and>
           g = substitute p perm \<and> (d = None \<or> g \<in> the d)"
proof (cases "build_perms p a req")
  case (Inl e)
  with assms show ?thesis by (simp add: yielded_cases)
next
  case (Inr perms)
  with assms show ?thesis by (auto simp: yielded_cases set_past_check)
qed

lemma distinct_orderings_permgen: "distinct_orderings present = set (permgen present)"
  by (simp add: distinct_orderings_def set_permgen)

lemma fill_slots_inj_on_orderings:
  "unknowns pattern = length present \<Longrightarrow> inj_on (fill_slots pattern) (distinct_orderings present)"
proof (rule inj_onI)
  fix x y
  assume u: "unknowns pattern = length present"
    and x: "x \<in> distinct_orderings present" and y: "y \<in> distinct_orderings present"
    and eq: "fill_slots pattern x = fill_slots pattern y"
  from x y have "length x = length present" "length y = length present"
    unfolding distinct_orderings_def by (auto dest: mset_eq_length)
  with u have "length x = count_list pattern CHR ''?''" "length y = count_list pattern CHR ''?''"
    by (simp_all add: unknowns_def)
  then show "x = y" using eq by (rule fill_slots_inj)
qed

lemma outcomes_finished: "outcomes n Finished = replicate n StopIteration"
  by (induction n) auto

text \<open>
  The facts to unfold when a run of the generator is computed on a concrete input.
\<close>

lemmas run_defs = yielded_created ending_created guess_generator_def build_perms_def permgen_def
  permutations_def substitute_def combogen_def combinations_def unknowns_def

section \<open>The properties\<close>

subsection \<open>C1: completeness when every unknown slot is filled from the present letters\<close>

text \<open>
  C1, as amended. When the number \<open>u\<close> of \<^verbatim>\<open>'?'\<close> in the pattern equals the length \<open>r\<close>
  of \<open>present\<close> and \<open>present\<close> contains no \<^verbatim>\<open>'?'\<close>, the set of guesses yielded
  without a dictionary is the set of all distinct orderings of \<open>present\<close>'s letters
  substituted left to right into the \<^verbatim>\<open>'?'\<close> positions of the pattern, its size is the
  number of distinct orderings of that multiset, and the generator ends without raising.
\<close>

theorem complete_when_all_slots_present:
  assumes "unknowns pattern = length present" and "CHR ''?'' \<notin> set present"
  shows "set (yielded (guess_generator pattern available present None)) = arrangements pattern present
       \<and> card (set (yielded (guess_generator pattern available present None)))
           = card (distinct_orderings present)
       \<and> ending (guess_generator pattern available present None) = None"
proof -
  have bp: "build_perms pattern available present = Inr (permgen present)"
    using assms(1) by (simp add: build_perms_eq unknowns_def)
  have same: "substitute pattern perm = fill_slots pattern perm"
    if "perm \<in> distinct_orderings present" for perm
  proof -
    from that have "set perm = set present"
      unfolding distinct_orderings_def by (auto dest: mset_eq_setD)
    with assms(2) show ?thesis by (simp add: substitute_fill_slots)
  qed
  have "set (yielded (guess_generator pattern available present None))
          = substitute pattern ` distinct_orderings present"
    by (simp add: yielded_cases bp set_past_check distinct_orderings_permgen)
  also have "\<dots> = arrangements pattern present"
    unfolding arrangements_def using same by (intro image_cong) auto
  finally have eq: "set (yielded (guess_generator pattern available present None))
          = arrangements pattern present" .
  have "card (arrangements pattern present) = card (distinct_orderings present)"
    unfolding arrangements_def
    by (rule card_image) (rule fill_slots_inj_on_orderings[OF assms(1)])
  with eq show ?thesis by (simp add: ending_cases bp)
qed

text \<open>
  An instance of C1: the pattern \<^verbatim>\<open>s??\<close> with \<open>present = ab\<close>.
\<close>

theorem complete_when_all_slots_present_witness:
  "unknowns ''s??'' = length ''ab'' \<and> CHR ''?'' \<notin> set ''ab''
   \<and> set (yielded (guess_generator ''s??'' ''xyz'' ''ab'' None)) = arrangements ''s??'' ''ab''
   \<and> card (set (yielded (guess_generator ''s??'' ''xyz'' ''ab'' None))) = card (distinct_orderings ''ab'')
   \<and> yielded (guess_generator ''s??'' ''xyz'' ''ab'' None) = [''sab'', ''sba'']"
proof -
  have h1: "unknowns ''s??'' = length ''ab''" by (simp add: unknowns_def)
  have h2: "CHR ''?'' \<notin> set ''ab''" by simp
  have run: "yielded (guess_generator ''s??'' ''xyz'' ''ab'' None) = [''sab'', ''sba'']"
    by (simp add: run_defs)
  from h1 h2 run complete_when_all_slots_present[OF h1 h2, of "''xyz''"]
  show ?thesis by blast
qed

text \<open>
  C1 as stated, for every input with \<open>u = r\<close>, fails when \<open>present\<close> contains
  \<^verbatim>\<open>'?'\<close>: for the pattern \<^verbatim>\<open>??\<close> and \<open>present = ?a\<close> the orderings \<^verbatim>\<open>?a\<close> and
  \<^verbatim>\<open>a?\<close> both become the guess \<^verbatim>\<open>a?\<close>, because \<^verbatim>\<open>replace\<close> finds the
  \<^verbatim>\<open>'?'\<close> it has just written again. The yielded set has one element, the set of
  arrangements two.
\<close>

theorem completeness_counterexample:
  "unknowns ''??'' = length ''?a''
   \<and> yielded (guess_generator ''??'' [] ''?a'' None) = [''a?'', ''a?'']
   \<and> fill_slots ''??'' ''?a'' = ''?a'' \<and> ''?a'' \<in> arrangements ''??'' ''?a''
   \<and> set (yielded (guess_generator ''??'' [] ''?a'' None)) \<noteq> arrangements ''??'' ''?a''
   \<and> card (set (yielded (guess_generator ''??'' [] ''?a'' None))) = 1
   \<and> card (distinct_orderings ''?a'') = 2"
proof -
  have run: "yielded (guess_generator ''??'' [] ''?a'' None) = [''a?'', ''a?'']"
    by (simp add: run_defs)
  have ord: "distinct_orderings ''?a'' = {''?a'', ''a?''}"
    by (simp add: distinct_orderings_permgen permgen_def permutations_def)
  have arr: "arrangements ''??'' ''?a'' = {''?a'', ''a?''}"
    by (simp add: arrangements_def ord)
  show ?thesis
    by (simp add: run ord arr unknowns_def)
qed

subsection \<open>C2: no guess is yielded twice\<close>

text \<open>
  C2, as amended. When neither \<open>available\<close> nor \<open>present\<close> contains \<^verbatim>\<open>'?'\<close>, the
  strings yielded by one run of the generator are pairwise distinct, for every pattern
  and dictionary, whatever letters are repeated in \<open>available\<close> or \<open>present\<close> and
  also when different combinations lead to the same ordering.
\<close>

theorem no_duplicates_without_placeholder_letters:
  assumes "CHR ''?'' \<notin> set available \<union> set present"
  shows "distinct (yielded (guess_generator pattern available present dictionary))"
proof (cases "build_perms pattern available present")
  case (Inl e)
  then show ?thesis by (simp add: yielded_cases)
next
  case (Inr perms)
  have "inj_on (substitute pattern) (set perms)"
  proof (rule inj_onI)
    fix x y assume x: "x \<in> set perms" and y: "y \<in> set perms"
      and eq: "substitute pattern x = substitute pattern y"
    from build_perms_letters[OF Inr x] build_perms_letters[OF Inr y] assms
    have "CHR ''?'' \<notin> set x" "CHR ''?'' \<notin> set y" by auto
    with eq have "fill_slots pattern x = fill_slots pattern y"
      by (simp add: substitute_fill_slots)
    moreover from build_perms_member[OF Inr x] build_perms_member[OF Inr y]
    have "length x = count_list pattern CHR ''?''" "length y = count_list pattern CHR ''?''"
      by auto
    ultimately show "x = y" by (rule fill_slots_inj[rotated 2])
  qed
  then have "inj_on (substitute pattern) (set (past_check perms {}))"
    by (rule inj_on_subset) (simp add: set_past_check)
  then have "distinct (map (substitute pattern) (past_check perms {}))"
    by (simp add: distinct_map distinct_past_check)
  then show ?thesis by (simp add: yielded_cases Inr)
qed

text \<open>
  An instance of C2: the letter \<open>a\<close> twice in \<open>available\<close> and once in \<open>present\<close>.
\<close>

theorem no_duplicates_without_placeholder_letters_witness:
  "CHR ''?'' \<notin> set ''aa'' \<union> set ''a''
   \<and> distinct (yielded (guess_generator ''s??'' ''aa'' ''a'' None))
   \<and> yielded (guess_generator ''s??'' ''aa'' ''a'' None) = [''saa'']"
proof -
  have h: "CHR ''?'' \<notin> set ''aa'' \<union> set ''a''" by simp
  have run: "yielded (guess_generator ''s??'' ''aa'' ''a'' None) = [''saa'']"
    by (simp add: run_defs)
  show ?thesis
    using h run no_duplicates_without_placeholder_letters[OF h, of "''s??''" None] by simp
qed

text \<open>
  C2 as stated, for every input, fails when \<open>present\<close> contains \<^verbatim>\<open>'?'\<close>: the run
  on the pattern \<^verbatim>\<open>??\<close> with \<open>present = ?a\<close> yields \<^verbatim>\<open>a?\<close> twice.
\<close>

theorem duplicate_guess_counterexample:
  "yielded (guess_generator ''??'' '''' ''?a'' None) = [''a?'', ''a?'']
   \<and> \<not> distinct (yielded (guess_generator ''??'' '''' ''?a'' None))"
  by (simp add: run_defs)

subsection \<open>C3: the shape of every yielded guess\<close>

text \<open>
  C3. For \<open>u \<ge> r\<close>, a pattern over \<open>a\<close> to \<open>z\<close> and \<^verbatim>\<open>'?'\<close>, and \<open>available\<close> and
  \<open>present\<close> over \<open>a\<close> to \<open>z\<close>, every yielded guess has the length of the pattern,
  agrees with the pattern at every position that is not \<^verbatim>\<open>'?'\<close>, has at the
  \<^verbatim>\<open>'?'\<close> positions exactly the multiset \<open>present\<close> plus a sub-multiset of
  \<open>available\<close> of size \<open>u - r\<close> (exactly \<open>present\<close> when \<open>u = r\<close>), and is a member
  of the dictionary when one was supplied.
\<close>

theorem yielded_guess_shape:
  assumes "length present \<le> unknowns pattern"
    and "\<forall>c\<in>set pattern. is_pattern_char c"
    and "\<forall>c\<in>set available. is_letter c"
    and "\<forall>c\<in>set present. is_letter c"
    and "g \<in> set (yielded (guess_generator pattern available present dictionary))"
  shows "length g = length pattern
       \<and> (\<forall>i<length pattern. pattern ! i \<noteq> CHR ''?'' \<longrightarrow> g ! i = pattern ! i)
       \<and> (\<exists>S. S \<subseteq># mset available \<and> size S = unknowns pattern - length present
               \<and> mset (slot_letters pattern g) = mset present + S)
       \<and> (unknowns pattern = length present \<longrightarrow> mset (slot_letters pattern g) = mset present)
       \<and> (\<forall>D. dictionary = Some D \<longrightarrow> g \<in> D)"
proof -
  from yielded_from_ordering[OF assms(5)] obtain perms perm
    where bp: "build_perms pattern available present = Inr perms" and perm: "perm \<in> set perms"
      and g: "g = substitute pattern perm" and d: "dictionary = None \<or> g \<in> the dictionary"
    by blast
  from build_perms_member[OF bp perm] obtain S
    where len: "length perm = count_list pattern CHR ''?''" and S: "S \<subseteq># mset available"
      "size S = unknowns pattern - length present" "mset perm = mset present + S"
    by (auto simp: unknowns_def)
  have "CHR ''?'' \<notin> set perm"
    using build_perms_letters[OF bp perm] assms(3,4) by (auto dest: letter_not_placeholder)
  with g len have slots: "slot_letters pattern g = perm"
    by (simp add: substitute_fill_slots slot_letters_fill_slots)
  have c1: "length g = length pattern"
    using g by (simp add: length_substitute)
  have c2: "\<forall>i<length pattern. pattern ! i \<noteq> CHR ''?'' \<longrightarrow> g ! i = pattern ! i"
    using g by (simp add: substitute_keeps)
  have c3: "\<exists>S. S \<subseteq># mset available \<and> size S = unknowns pattern - length present
               \<and> mset (slot_letters pattern g) = mset present + S"
    using S slots by blast
  have c4: "unknowns pattern = length present \<longrightarrow> mset (slot_letters pattern g) = mset present"
  proof
    assume "unknowns pattern = length present"
    with S(2) have "S = {#}" by simp
    with S(3) slots show "mset (slot_letters pattern g) = mset present" by simp
  qed
  have c5: "\<forall>D. dictionary = Some D \<longrightarrow> g \<in> D"
    using d by auto
  from c1 c2 c3 c4 c5 show ?thesis by blast
qed

text \<open>
  An instance of C3: the guess \<^verbatim>\<open>sxa\<close> for the pattern \<^verbatim>\<open>s??\<close>.
\<close>

theorem yielded_guess_shape_witness:
  "length ''a'' \<le> unknowns ''s??''
   \<and> list_all is_pattern_char ''s??'' \<and> list_all is_letter ''xy'' \<and> list_all is_letter ''a''
   \<and> ''sxa'' \<in> set (yielded (guess_generator ''s??'' ''xy'' ''a'' (Some {''sxa'', ''say''})))
   \<and> length ''sxa'' = length ''s??''
   \<and> ''sxa'' ! 0 = ''s??'' ! 0
   \<and> (\<exists>S. S \<subseteq># mset ''xy'' \<and> size S = unknowns ''s??'' - length ''a''
          \<and> mset (slot_letters ''s??'' ''sxa'') = mset ''a'' + S)
   \<and> ''sxa'' \<in> {''sxa'', ''say''}"
proof -
  have h1: "length ''a'' \<le> unknowns ''s??''" by (simp add: unknowns_def)
  have l2: "list_all is_pattern_char ''s??''" by (simp add: is_pattern_char_def is_letter_def)
  have l3: "list_all is_letter ''xy''" by (simp add: is_letter_def)
  have l4: "list_all is_letter ''a''" by (simp add: is_letter_def)
  from l2 have h2: "\<forall>c\<in>set ''s??''. is_pattern_char c" unfolding list_all_iff .
  from l3 have h3: "\<forall>c\<in>set ''xy''. is_letter c" unfolding list_all_iff .
  from l4 have h4: "\<forall>c\<in>set ''a''. is_letter c" unfolding list_all_iff .
  have h5: "''sxa'' \<in> set (yielded (guess_generator ''s??'' ''xy'' ''a'' (Some {''sxa'', ''say''})))"
    by (simp add: run_defs)
  from yielded_guess_shape[OF h1 h2 h3 h4 h5]
  have "\<exists>S. S \<subseteq># mset ''xy'' \<and> size S = unknowns ''s??'' - length ''a''
          \<and> mset (slot_letters ''s??'' ''sxa'') = mset ''a'' + S"
    by blast
  with h1 l2 l3 l4 h5 show ?thesis by simp
qed

subsection \<open>C4: known positions are kept, unknown positions are filled from the left\<close>

text \<open>
  C4, as amended. For every input and every yielded guess, the guess has the length of the
  pattern and every character of the pattern that is not \<^verbatim>\<open>'?'\<close> stands unchanged at
  the same position of the guess. When neither \<open>available\<close> nor \<open>present\<close> contains
  \<^verbatim>\<open>'?'\<close>, the substitution fills the \<^verbatim>\<open>'?'\<close> positions from left to right: the
  guesses yielded are, in order and after the dictionary filter, the left-to-right
  fillings of the orderings the second loop processes; each of these orderings has one
  letter for each \<^verbatim>\<open>'?'\<close>, the code's substitution of it is its left-to-right filling,
  and the letters at the \<^verbatim>\<open>'?'\<close> positions of its guess, read from the left, are the
  ordering itself.
\<close>

theorem known_kept_unknown_filled:
  "(\<forall>g\<in>set (yielded (guess_generator pattern available present dictionary)).
      length g = length pattern
      \<and> (\<forall>i<length pattern. pattern ! i \<noteq> CHR ''?'' \<longrightarrow> g ! i = pattern ! i))
   \<and> (CHR ''?'' \<notin> set available \<union> set present \<longrightarrow>
        (\<forall>perms. build_perms pattern available present = Inr perms \<longrightarrow>
           yielded (guess_generator pattern available present dictionary)
             = filter (\<lambda>g. dictionary = None \<or> g \<in> the dictionary)
                 (map (fill_slots pattern) (past_check perms {}))
           \<and> (\<forall>perm\<in>set perms.
                 length perm = unknowns pattern
                 \<and> substitute pattern perm = fill_slots pattern perm
                 \<and> slot_letters pattern (substitute pattern perm) = perm)))"
proof (intro conjI ballI impI allI)
  fix g assume g: "g \<in> set (yielded (guess_generator pattern available present dictionary))"
  from yielded_from_ordering[OF g] obtain perm where s: "g = substitute pattern perm"
    by blast
  show "length g = length pattern"
    using s by (simp add: length_substitute)
  fix i assume "i < length pattern" "pattern ! i \<noteq> CHR ''?''"
  then show "g ! i = pattern ! i"
    using s by (simp add: substitute_keeps)
next
  fix perms
  assume q: "CHR ''?'' \<notin> set available \<union> set present"
    and bp: "build_perms pattern available present = Inr perms"
  have fill: "substitute pattern perm = fill_slots pattern perm" if "perm \<in> set perms" for perm
  proof -
    from build_perms_letters[OF bp that] q have "CHR ''?'' \<notin> set perm" by auto
    then show ?thesis by (rule substitute_fill_slots)
  qed
  have m: "map (substitute pattern) (past_check perms {}) = map (fill_slots pattern) (past_check perms {})"
    by (rule map_cong) (simp_all add: set_past_check fill)
  have "yielded (guess_generator pattern available present dictionary)
          = filter (\<lambda>g. dictionary = None \<or> g \<in> the dictionary)
              (map (substitute pattern) (past_check perms {}))"
    by (simp add: yielded_cases bp)
  also have "\<dots> = filter (\<lambda>g. dictionary = None \<or> g \<in> the dictionary)
              (map (fill_slots pattern) (past_check perms {}))"
    by (simp only: m)
  finally show "yielded (guess_generator pattern available present dictionary)
             = filter (\<lambda>g. dictionary = None \<or> g \<in> the dictionary)
                 (map (fill_slots pattern) (past_check perms {}))" .
  fix perm assume perm: "perm \<in> set perms"
  from build_perms_member[OF bp perm] show len: "length perm = unknowns pattern"
    by (simp add: unknowns_def)
  show "substitute pattern perm = fill_slots pattern perm"
    using perm by (rule fill)
  show "slot_letters pattern (substitute pattern perm) = perm"
    using len by (simp add: fill[OF perm] slot_letters_fill_slots unknowns_def)
qed

text \<open>
  An instance of C4: the pattern \<^verbatim>\<open>s??\<close> with \<open>available = xy\<close> and \<open>present = a\<close>;
  the guess \<^verbatim>\<open>sxa\<close> keeps the \<open>s\<close>, and the ordering \<^verbatim>\<open>xa\<close> fills the two
  \<^verbatim>\<open>'?'\<close> in its own order.
\<close>

theorem known_kept_unknown_filled_witness:
  "CHR ''?'' \<notin> set ''xy'' \<union> set ''a''
   \<and> build_perms ''s??'' ''xy'' ''a'' = Inr [''xa'', ''ax'', ''ya'', ''ay'']
   \<and> yielded (guess_generator ''s??'' ''xy'' ''a'' None) = [''sxa'', ''sax'', ''sya'', ''say'']
   \<and> ''sxa'' \<in> set (yielded (guess_generator ''s??'' ''xy'' ''a'' None))
   \<and> length ''sxa'' = length ''s??''
   \<and> ''s??'' ! 0 \<noteq> CHR ''?'' \<and> ''sxa'' ! 0 = ''s??'' ! 0
   \<and> ''xa'' \<in> set [''xa'', ''ax'', ''ya'', ''ay'']
   \<and> length ''xa'' = unknowns ''s??''
   \<and> substitute ''s??'' ''xa'' = fill_slots ''s??'' ''xa''
   \<and> slot_letters ''s??'' (substitute ''s??'' ''xa'') = ''xa''"
proof -
  have q: "CHR ''?'' \<notin> set ''xy'' \<union> set ''a''" by simp
  have bp: "build_perms ''s??'' ''xy'' ''a'' = Inr [''xa'', ''ax'', ''ya'', ''ay'']"
    by (simp add: build_perms_def permgen_def permutations_def combogen_def combinations_def)
  have run: "yielded (guess_generator ''s??'' ''xy'' ''a'' None) = [''sxa'', ''sax'', ''sya'', ''say'']"
    by (simp add: run_defs)
  have g: "''sxa'' \<in> set (yielded (guess_generator ''s??'' ''xy'' ''a'' None))"
    by (simp add: run)
  have p: "''xa'' \<in> set [''xa'', ''ax'', ''ya'', ''ay'']" by simp
  note t = known_kept_unknown_filled[of "''s??''" "''xy''" "''a''" None]
  from t g have "length ''sxa'' = length ''s??''"
    and "\<forall>i<length ''s??''. ''s??'' ! i \<noteq> CHR ''?'' \<longrightarrow> ''sxa'' ! i = ''s??'' ! i"
    by blast+
  moreover from t q bp p have "length ''xa'' = unknowns ''s??''"
    and "substitute ''s??'' ''xa'' = fill_slots ''s??'' ''xa''"
    and "slot_letters ''s??'' (substitute ''s??'' ''xa'') = ''xa''"
    by blast+
  ultimately show ?thesis using q bp run g p by simp
qed

text \<open>
  C4 as stated, for every input, fails in its left-to-right filling when \<open>present\<close>
  contains \<^verbatim>\<open>'?'\<close>: for the pattern \<^verbatim>\<open>??\<close> and \<open>present = ?a\<close> the second loop
  processes the ordering \<^verbatim>\<open>?a\<close>, and its guess is \<^verbatim>\<open>a?\<close>: the first \<^verbatim>\<open>'?'\<close>
  position holds the second letter of the ordering, not the first, because
  \<^verbatim>\<open>replace\<close> finds the \<^verbatim>\<open>'?'\<close> it has just written again.
\<close>

theorem left_to_right_filling_counterexample:
  "build_perms ''??'' [] ''?a'' = Inr [''?a'', ''a?'']
   \<and> past_check [''?a'', ''a?''] {} = [''?a'', ''a?'']
   \<and> yielded (guess_generator ''??'' [] ''?a'' None) = [''a?'', ''a?'']
   \<and> substitute ''??'' ''?a'' = ''a?''
   \<and> fill_slots ''??'' ''?a'' = ''?a''
   \<and> substitute ''??'' ''?a'' ! 0 \<noteq> ''?a'' ! 0
   \<and> slot_letters ''??'' (substitute ''??'' ''?a'') \<noteq> ''?a''"
  by (simp add: run_defs)

subsection \<open>C5: a dictionary only filters\<close>

text \<open>
  C5. For every pattern, \<open>available\<close>, \<open>present\<close> and dictionary \<open>D\<close>, the guesses
  yielded with \<open>D\<close> are those yielded without a dictionary that are members of \<open>D\<close>, in
  the same order; so they form a subset, and a guess is yielded with \<open>D\<close> if and only if
  it is yielded without a dictionary and is in \<open>D\<close>.
\<close>

theorem dictionary_filters:
  "yielded (guess_generator pattern available present (Some D))
     = filter (\<lambda>g. g \<in> D) (yielded (guess_generator pattern available present None))
   \<and> set (yielded (guess_generator pattern available present (Some D)))
     \<subseteq> set (yielded (guess_generator pattern available present None))
   \<and> (\<forall>g. g \<in> set (yielded (guess_generator pattern available present (Some D)))
          \<longleftrightarrow> g \<in> set (yielded (guess_generator pattern available present None)) \<and> g \<in> D)"
proof -
  have "yielded (guess_generator pattern available present (Some D))
     = filter (\<lambda>g. g \<in> D) (yielded (guess_generator pattern available present None))"
    by (cases "build_perms pattern available present") (simp_all add: yielded_cases)
  then show ?thesis by simp
qed

text \<open>
  An instance of C5: of the four guesses for the pattern \<^verbatim>\<open>s??\<close>, the dictionary keeps one.
\<close>

theorem dictionary_filters_witness:
  "yielded (guess_generator ''s??'' ''xy'' ''a'' None) = [''sxa'', ''sax'', ''sya'', ''say'']
   \<and> yielded (guess_generator ''s??'' ''xy'' ''a'' (Some {''sax'', ''zzz''})) = [''sax'']
   \<and> set (yielded (guess_generator ''s??'' ''xy'' ''a'' (Some {''sax'', ''zzz''})))
       \<subseteq> set (yielded (guess_generator ''s??'' ''xy'' ''a'' None))"
proof -
  have run: "yielded (guess_generator ''s??'' ''xy'' ''a'' None) = [''sxa'', ''sax'', ''sya'', ''say'']"
    by (simp add: run_defs)
  show ?thesis
    using dictionary_filters[of "''s??''" "''xy''" "''a''" "{''sax'', ''zzz''}"]
    unfolding run by simp
qed

subsection \<open>C6: the pattern is not validated\<close>

text \<open>
  C6, as amended. The generator does not look at which characters the pattern has: for
  every pattern, also one with characters outside \<open>a\<close> to \<open>z\<close> and \<^verbatim>\<open>'?'\<close>, it
  ends without raising whenever \<open>u \<ge> r\<close>. The only failure is the \<^verbatim>\<open>ValueError\<close> of
  \<open>r > u\<close>, and a run that raises has yielded nothing before: no failure surfaces after a
  guess has been yielded.
\<close>

theorem no_pattern_validation:
  "ending (guess_generator pattern available present dictionary)
     = (if unknowns pattern < length present then Some ValueError else None)
   \<and> (ending (guess_generator pattern available present dictionary) \<noteq> None
        \<longrightarrow> yielded (guess_generator pattern available present dictionary) = [])"
proof -
  consider "unknowns pattern = length present" | "length present < unknowns pattern"
    | "unknowns pattern < length present"
    by linarith
  then show ?thesis
  proof cases
    case 1
    then show ?thesis by (simp add: ending_cases build_perms_eq unknowns_def)
  next
    case 2
    then show ?thesis by (simp add: ending_cases build_perms_more unknowns_def)
  next
    case 3
    then show ?thesis by (simp add: ending_cases yielded_cases build_perms_fewer unknowns_def)
  qed
qed

text \<open>
  Two instances of C6 with the character \<open>A\<close> in the pattern: no failure for \<open>u \<ge> r\<close>,
  and for \<open>r > u\<close> a failure before anything is yielded.
\<close>

theorem no_pattern_validation_witness:
  "\<not> is_pattern_char CHR ''A''
   \<and> \<not> unknowns ''A?'' < length ''b''
   \<and> ending (guess_generator ''A?'' ''xy'' ''b'' None) = None
   \<and> unknowns ''A'' < length ''b''
   \<and> ending (guess_generator ''A'' ''xy'' ''b'' None) \<noteq> None
   \<and> yielded (guess_generator ''A'' ''xy'' ''b'' None) = []"
  using no_pattern_validation[of "''A?''" "''xy''" "''b''" None]
    no_pattern_validation[of "''A''" "''xy''" "''b''" None]
  by (simp add: unknowns_def is_pattern_char_def is_letter_def)

text \<open>
  C6 as stated fails: the pattern \<^verbatim>\<open>A?\<close> contains \<open>A\<close>, which is outside the
  alphabet, and is not rejected; the first request yields the guess \<^verbatim>\<open>Ab\<close> and the
  second ends the iteration normally.
\<close>

theorem pattern_not_validated_counterexample:
  "CHR ''A'' \<in> set ''A?'' \<and> \<not> is_pattern_char CHR ''A''
   \<and> outcomes 2 (guess_generator ''A?'' ''b'' '''' None) = [Yield ''Ab'', StopIteration]"
  by (simp add: guess_generator_def build_perms_def permgen_def permutations_def substitute_def
      combogen_def combinations_def numeral_2_eq_2 is_pattern_char_def is_letter_def)

subsection \<open>C7: the combinations whose permutations are generated\<close>

text \<open>
  C7, as amended. The generators the first loop collects are those of the combinations
  that get past the seen-set check, one for each; no two of these combinations are equal
  as strings; and when the occurrences of each letter are adjacent in \<open>available\<close>, no
  two of them are equal as multisets of letters.
\<close>

theorem processed_combinations_distinct:
  "combo_loop required (subsequences_r available k) {} []
     = map (\<lambda>combo. permgen (combo @ required)) (past_check (subsequences_r available k) {})
   \<and> distinct (past_check (subsequences_r available k) {})
   \<and> (grouped available \<longrightarrow>
        (\<forall>c1\<in>set (past_check (subsequences_r available k) {}).
         \<forall>c2\<in>set (past_check (subsequences_r available k) {}).
            mset c1 = mset c2 \<longrightarrow> c1 = c2))"
proof (intro conjI impI ballI)
  show "combo_loop required (subsequences_r available k) {} []
     = map (\<lambda>combo. permgen (combo @ required)) (past_check (subsequences_r available k) {})"
    by (simp add: combo_loop_past_check)
  show "distinct (past_check (subsequences_r available k) {})"
    by (rule distinct_past_check)
next
  fix c1 c2
  assume "grouped available"
    and "c1 \<in> set (past_check (subsequences_r available k) {})"
    and "c2 \<in> set (past_check (subsequences_r available k) {})"
    and "mset c1 = mset c2"
  then show "c1 = c2"
    by (simp add: set_past_check grouped_subsequences_mset_inj)
qed

text \<open>
  An instance of C7: \<open>available = aab\<close> and combinations of size 2.
\<close>

theorem processed_combinations_distinct_witness:
  "grouped ''aab''
   \<and> past_check (subsequences_r ''aab'' 2) {} = [''aa'', ''ab'']
   \<and> combo_loop ''z'' (subsequences_r ''aab'' 2) {} [] = [permgen ''aaz'', permgen ''abz'']
   \<and> distinct (past_check (subsequences_r ''aab'' 2) {})"
proof -
  have run: "past_check (subsequences_r ''aab'' 2) {} = [''aa'', ''ab'']"
    by (simp add: numeral_2_eq_2)
  show ?thesis
    using processed_combinations_distinct[of "''z''" "''aab''" 2]
    unfolding run by simp
qed

text \<open>
  C7 as stated fails for a letter repeated at non-adjacent positions: from
  \<open>available = aba\<close> the combinations of size 2 are \<^verbatim>\<open>ab\<close>, \<^verbatim>\<open>aa\<close> and \<^verbatim>\<open>ba\<close>;
  all three get past the check and have their permutations generated, and \<^verbatim>\<open>ab\<close> and
  \<^verbatim>\<open>ba\<close> are the same multiset.
\<close>

theorem same_multiset_processed_twice_counterexample:
  "combinations ''aba'' 2 = Inr [''ab'', ''aa'', ''ba'']
   \<and> past_check [''ab'', ''aa'', ''ba''] {} = [''ab'', ''aa'', ''ba'']
   \<and> combo_loop '''' [''ab'', ''aa'', ''ba''] {} [] = [permgen ''ab'', permgen ''aa'', permgen ''ba'']
   \<and> ''ab'' \<noteq> ''ba'' \<and> mset ''ab'' = mset ''ba''"
  by (simp add: combinations_def numeral_2_eq_2)

subsection \<open>C8: a pattern without unknown positions\<close>

text \<open>
  C8, as amended. For a pattern without \<^verbatim>\<open>'?'\<close> and an empty \<open>present\<close>, and every
  \<open>available\<close> and dictionary, the generator yields the pattern itself exactly once if
  there is no dictionary or the pattern is a member of it, yields nothing otherwise, and
  ends without raising.
\<close>

theorem no_unknowns_no_present:
  assumes "unknowns pattern = 0"
  shows "yielded (guess_generator pattern available [] dictionary)
           = (case dictionary of None \<Rightarrow> [pattern]
              | Some D \<Rightarrow> if pattern \<in> D then [pattern] else [])
       \<and> ending (guess_generator pattern available [] dictionary) = None"
proof -
  have "build_perms pattern available [] = Inr [[]]"
    using assms by (simp add: build_perms_def unknowns_def permgen_def permutations_def)
  then show ?thesis
    by (simp add: yielded_cases ending_cases substitute_def split: option.splits)
qed

text \<open>
  An instance of C8: the pattern \<^verbatim>\<open>abcde\<close>, without a dictionary and with one that
  does not contain it.
\<close>

theorem no_unknowns_no_present_witness:
  "unknowns ''abcde'' = 0
   \<and> yielded (guess_generator ''abcde'' ''xyz'' '''' None) = [''abcde'']
   \<and> yielded (guess_generator ''abcde'' ''xyz'' '''' (Some {''abcdf''})) = []"
proof -
  have h: "unknowns ''abcde'' = 0" by (simp add: unknowns_def)
  show ?thesis
    using h no_unknowns_no_present[OF h, of "''xyz''" None]
      no_unknowns_no_present[OF h, of "''xyz''" "Some {''abcdf''}"]
    by simp
qed

text \<open>
  C8 as stated, for every \<open>present\<close>, fails when \<open>present\<close> is not empty: then \<open>r > u = 0\<close>,
  and the run on the pattern \<^verbatim>\<open>abc\<close> with \<open>present = x\<close> yields nothing and raises
  \<^verbatim>\<open>ValueError\<close>.
\<close>

theorem no_unknowns_with_present_counterexample:
  "unknowns ''abc'' = 0
   \<and> yielded (guess_generator ''abc'' '''' ''x'' None) = []
   \<and> ending (guess_generator ''abc'' '''' ''x'' None) = Some ValueError"
  by (simp add: run_defs)

subsection \<open>C9: nothing to choose from\<close>

text \<open>
  C9. For \<open>u > r\<close> and an empty \<open>available\<close>, the generator yields nothing: its
  sequence is empty, it ends without raising, and the first request already reports the
  end of the iteration.
\<close>

theorem empty_available_yields_nothing:
  assumes "length present < unknowns pattern"
  shows "yielded (guess_generator pattern [] present dictionary) = []
       \<and> ending (guess_generator pattern [] present dictionary) = None
       \<and> next_item (guess_generator pattern [] present dictionary) = (StopIteration, Finished)"
proof -
  obtain k where "unknowns pattern - length present = Suc k"
    using assms by (metis Suc_diff_Suc)
  then have "build_perms pattern [] present = Inr []"
    using assms by (simp add: build_perms_more unknowns_def)
  then show ?thesis
    by (simp add: yielded_created ending_created guess_generator_def)
qed

text \<open>
  An instance of C9: the pattern \<^verbatim>\<open>?????\<close> with \<open>present = aet\<close>.
\<close>

theorem empty_available_yields_nothing_witness:
  "length ''aet'' < unknowns ''?????''
   \<and> yielded (guess_generator ''?????'' '''' ''aet'' None) = []
   \<and> ending (guess_generator ''?????'' '''' ''aet'' None) = None"
proof -
  have h: "length ''aet'' < unknowns ''?????''" by (simp add: unknowns_def)
  show ?thesis
    using h empty_available_yields_nothing[OF h, of None] by simp
qed

subsection \<open>C10: more present letters than unknown positions\<close>

text \<open>
  C10. For \<open>r > u\<close> the call returns a generator object, created and not yet run, without
  raising; the first request on it raises \<^verbatim>\<open>ValueError\<close> and finishes it, every
  later request reports the end of the iteration, and no guess is ever yielded.
\<close>

theorem too_many_present_raises:
  assumes "unknowns pattern < length present"
  shows "guess_generator pattern available present dictionary
           = Created pattern available present dictionary
       \<and> next_item (guess_generator pattern available present dictionary)
           = (Raise ValueError, Finished)
       \<and> outcomes (Suc n) (guess_generator pattern available present dictionary)
           = Raise ValueError # replicate n StopIteration
       \<and> yielded (guess_generator pattern available present dictionary) = []"
proof -
  have bp: "build_perms pattern available present = Inl ValueError"
    using assms by (simp add: build_perms_fewer unknowns_def)
  then have "next_item (guess_generator pattern available present dictionary)
               = (Raise ValueError, Finished)"
    by (simp add: guess_generator_def)
  then show ?thesis
    by (simp add: yielded_created bp outcomes_finished guess_generator_def)
qed

text \<open>
  An instance of C10: the pattern \<^verbatim>\<open>a?\<close> with \<open>present = xy\<close>.
\<close>

theorem too_many_present_raises_witness:
  "unknowns ''a?'' < length ''xy''
   \<and> next_item (guess_generator ''a?'' ''bc'' ''xy'' None) = (Raise ValueError, Finished)
   \<and> outcomes (Suc 2) (guess_generator ''a?'' ''bc'' ''xy'' None)
       = [Raise ValueError, StopIteration, StopIteration]
   \<and> yielded (guess_generator ''a?'' ''bc'' ''xy'' None) = []"
proof -
  have h: "unknowns ''a?'' < length ''xy''" by (simp add: unknowns_def)
  from too_many_present_raises[OF h, where n = 2 and available = "''bc''" and dictionary = None]
  have n: "next_item (guess_generator ''a?'' ''bc'' ''xy'' None) = (Raise ValueError, Finished)"
    and o: "outcomes (Suc 2) (guess_generator ''a?'' ''bc'' ''xy'' None)
              = Raise ValueError # replicate 2 StopIteration"
    and y: "yielded (guess_generator ''a?'' ''bc'' ''xy'' None) = []"
    by blast+
  have "replicate 2 StopIteration = [StopIteration, StopIteration]"
    by (simp add: numeral_2_eq_2)
  with h n o y show ?thesis by simp
qed

end
